theory Spec2Isabelle
  imports Main "HOL-Library.Word"
begin

unbundle bit_operations_syntax

section \<open>Data model\<close>

text \<open>
  The development embeds the members of \<open>DataProcessor::Impl\<close> (src/main.cpp) that
  set the object up, hash data, dispatch it to a detached thread, wait, and report errors,
  together with the public stub \<open>DataProcessor::decompressFile\<close>.

  A \<open>std::string\<close> is a sequence of bytes: \<open>string\<close>. An \<open>unsigned char\<close> is an
  \<open>8 word\<close>.
\<close>

type_synonym byte = "8 word"

text \<open>
  OpenSSL is linked into the process, it is not code of the repository. What it answers
  during one call of \<open>generateHash\<close> is a parameter of that call, and another call may
  meet other answers: whether \<open>EVP_MD_CTX_new\<close> returned a context, the return code of
  \<open>EVP_DigestInit_ex\<close> (with \<open>EVP_sha256()\<close>), and, as functions of the bytes fed to
  the context, the return code of \<open>EVP_DigestUpdate\<close> and the return code of
  \<open>EVP_DigestFinal_ex\<close> with the \<open>hashLen\<close> bytes it wrote to \<open>hash\<close>.
\<close>

record openssl =
  EVP_MD_CTX_new :: bool
  EVP_DigestInit_ex :: int
  EVP_DigestUpdate :: "string \<Rightarrow> int"
  EVP_DigestFinal_ex :: "string \<Rightarrow> int \<times> byte list"

text \<open>The calls made on \<open>logger_\<close> are kept as a list of level and message.\<close>

datatype level = Level_info | Level_error

text \<open>
  A \<open>std::function<void(const std::string&)>\<close> is seen through what invoking it does: an
  empty one throws \<open>std::bad_function_call\<close> without running anything, a target runs
  and either returns or throws.
\<close>

datatype callback = Empty_function | Returns | Throws

text \<open>
  The detached thread of \<open>processDataAsync\<close> is at one of four places: created and not
  yet run (\<open>Submitted\<close>); past \<open>generateHash\<close>, holding \<open>result\<close>
  (\<open>Running\<close>); past the return of \<open>callback(result)\<close> (\<open>Completed\<close>); or ended
  by an exception that nothing catches or by a null dereference (\<open>Aborted\<close>).
  \<open>received\<close> lists the arguments with which the task's callback target has been run.
\<close>

datatype phase = Submitted | Running string | Completed | Aborted

record task =
  data :: string
  callback :: callback
  phase :: phase
  received :: "string list"

text \<open>
  The state holds the data members \<open>logger_\<close>, \<open>processedItems_\<close>, \<open>errorCount_\<close> and
  \<open>lastError_\<close> of \<open>Impl\<close>, and what the process adds to them: the detached threads in
  the order of their creation, the time in milliseconds that the calling thread has spent
  blocked, whether the process has been ended (by \<open>std::terminate\<close> or by a null
  dereference), and the files on disk. \<open>logger_\<close> is a pointer: \<open>None\<close> is
  \<open>nullptr\<close>, and \<open>Some\<close> holds the calls made on the logger so far.
\<close>

record state =
  logger :: "(level \<times> string) list option"
  processedItems :: int
  errorCount :: int
  lastError :: string
  threads :: "task list"
  blocked_ms :: nat
  terminated :: bool
  files :: "string \<rightharpoonup> string"

text \<open>
  A call \<open>logger_->info(...)\<close> or \<open>logger_->error(...)\<close>. No method checks
  \<open>logger_\<close> before such a call except \<open>setLogLevel\<close>, \<open>logOperation\<close> and
  \<open>cleanupComponents\<close>: on \<open>nullptr\<close> there is no state after it (\<open>None\<close>), and
  the process is taken to end there.
\<close>

definition log_call :: "level \<Rightarrow> string \<Rightarrow> state \<Rightarrow> state option" where
  "log_call lv msg s =
     (case logger s of
        None \<Rightarrow> None
      | Some ms \<Rightarrow> Some (s\<lparr>logger := Some (ms @ [(lv, msg)])\<rparr>))"

definition crashed :: "state \<Rightarrow> state" where
  "crashed s = s\<lparr>terminated := True\<rparr>"

section \<open>Setting the object up\<close>

text \<open>
  \<open>Impl::initializeComponents\<close>, as far as \<open>logger_\<close> and \<open>lastError_\<close> go. spdlog
  and FreeType are not code of the repository: \<open>spdlog::stdout_color_mt\<close> either
  returns a logger (\<open>None\<close>) or throws an exception with the given \<open>what()\<close> (it does
  when a logger of that name is registered already), and \<open>FT_Init_FreeType\<close> returns
  its code. The exception is caught, \<open>lastError_\<close> is set, and \<open>logger_\<close> stays what
  the constructor's initialiser made it: \<open>nullptr\<close>. The calls to curl and HarfBuzz are
  taken to return.
\<close>

record components =
  stdout_color_mt :: "string option"
  FT_Init_FreeType :: int

definition initializeComponents :: "components \<Rightarrow> state \<Rightarrow> bool \<times> state" where
  "initializeComponents C s =
     (case stdout_color_mt C of
        Some what \<Rightarrow> (False, s\<lparr>lastError := what\<rparr>)
      | None \<Rightarrow>
          if FT_Init_FreeType C \<noteq> 0
          then (False, s\<lparr>logger := Some [(Level_error, ''Failed to initialize FreeType'')]\<rparr>)
          else (True, s\<lparr>logger := Some [(Level_info, ''All components initialized successfully'')]\<rparr>))"

text \<open>
  The constructor \<open>Impl()\<close>: null pointers, zero counters, an empty \<open>lastError_\<close>, then
  \<open>initializeComponents()\<close>, whose answer it drops. \<open>fs\<close> is the disk it finds.
\<close>

definition Impl :: "components \<Rightarrow> (string \<rightharpoonup> string) \<Rightarrow> state" where
  "Impl C fs =
     snd (initializeComponents C
       \<lparr>logger = None, processedItems = 0, errorCount = 0, lastError = '''',
        threads = [], blocked_ms = 0, terminated = False, files = fs\<rparr>)"

text \<open>\<open>DataProcessor()\<close> when nothing fails.\<close>

definition new_DataProcessor :: "(string \<rightharpoonup> string) \<Rightarrow> state" where
  "new_DataProcessor fs = Impl \<lparr>stdout_color_mt = None, FT_Init_FreeType = 0\<rparr> fs"

section \<open>Hashing\<close>

text \<open>
  \<^verbatim>\<open>ss << std::hex << std::setw(2) << std::setfill('0') << static_cast<int>(hash[i]);\<close>

  With \<open>std::hex\<close> an \<open>int\<close> is printed as the unsigned value of its 32 bits, in lower
  case, with as many digits as it needs (\<open>to_hex\<close>); \<open>std::setw(2)\<close> and
  \<open>std::setfill('0')\<close> put fill characters in front of an output shorter than two
  characters and never cut a longer one (\<open>setw_setfill\<close>).
\<close>

definition hex_digit :: "nat \<Rightarrow> char" where
  "hex_digit n = ''0123456789abcdef'' ! n"

fun to_hex :: "nat \<Rightarrow> string" where
  "to_hex n = (if n < 16 then [hex_digit n] else to_hex (n div 16) @ [hex_digit (n mod 16)])"

declare to_hex.simps [simp del]

definition static_cast_int :: "byte \<Rightarrow> int" where
  "static_cast_int b = uint b"

definition put_hex_int :: "int \<Rightarrow> string" where
  "put_hex_int v = to_hex (nat (v mod 2 ^ 32))"

definition setw_setfill :: "nat \<Rightarrow> char \<Rightarrow> string \<Rightarrow> string" where
  "setw_setfill w c out = replicate (w - length out) c @ out"

definition put_hex_byte :: "byte \<Rightarrow> string" where
  "put_hex_byte b = setw_setfill 2 (CHR ''0'') (put_hex_int (static_cast_int b))"

text \<open>The loop over \<open>i < hashLen\<close>, appending to the stream \<open>ss\<close>.\<close>

fun hex_loop :: "byte list \<Rightarrow> string \<Rightarrow> string" where
  "hex_loop [] ss = ss"
| "hex_loop (b # hash) ss = hex_loop hash (ss @ put_hex_byte b)"

text \<open>
  Every path of \<open>generateHash\<close> ends with one call on \<open>logger_\<close> and a
  \<open>return\<close>: with \<open>logger_\<close> null the call is a null dereference and nothing is
  returned.
\<close>

definition log_return :: "level \<Rightarrow> string \<Rightarrow> string \<Rightarrow> state \<Rightarrow> string option \<times> state" where
  "log_return lv msg r s =
     (case log_call lv msg s of
        None \<Rightarrow> (None, crashed s)
      | Some s' \<Rightarrow> (Some r, s'))"

text \<open>
  \<open>Impl::generateHash\<close>: four guarded OpenSSL calls, each failure logged and answered
  with the empty string; then the hexadecimal rendering of the \<open>hashLen\<close> bytes.
  \<open>L\<close> is what OpenSSL answers during this call.
\<close>

definition generateHash :: "openssl \<Rightarrow> string \<Rightarrow> state \<Rightarrow> string option \<times> state" where
  "generateHash L d s =
     (if \<not> EVP_MD_CTX_new L then log_return Level_error ''Failed to create hash context'' '''' s
      else if EVP_DigestInit_ex L \<noteq> 1 then log_return Level_error ''Failed to initialize hash'' '''' s
      else if EVP_DigestUpdate L d \<noteq> 1 then log_return Level_error ''Failed to update hash'' '''' s
      else (case EVP_DigestFinal_ex L d of
              (rc, hash) \<Rightarrow>
                if rc \<noteq> 1 then log_return Level_error ''Failed to finalize hash'' '''' s
                else log_return Level_info ''Hash generated successfully'' (hex_loop hash '''') s))"

text \<open>
  Whether all four OpenSSL calls succeed on \<open>d\<close>, and the string that \<open>generateHash\<close>
  returns under these answers when it returns.
\<close>

definition digest_ok :: "openssl \<Rightarrow> string \<Rightarrow> bool" where
  "digest_ok L d =
     (EVP_MD_CTX_new L \<and> EVP_DigestInit_ex L = 1 \<and> EVP_DigestUpdate L d = 1
      \<and> fst (EVP_DigestFinal_ex L d) = 1)"

definition hash_of :: "openssl \<Rightarrow> string \<Rightarrow> string" where
  "hash_of L d = (if digest_ok L d then hex_loop (snd (EVP_DigestFinal_ex L d)) '''' else '''')"

text \<open>Reading a hexadecimal string back, two characters to the byte.\<close>

primrec position :: "char \<Rightarrow> string \<Rightarrow> nat" where
  "position c [] = 0"
| "position c (x # xs) = (if x = c then 0 else Suc (position c xs))"

definition hex_val :: "char \<Rightarrow> nat" where
  "hex_val c = position c ''0123456789abcdef''"

fun decode_hex :: "string \<Rightarrow> byte list" where
  "decode_hex (a # b # cs) = word_of_nat (16 * hex_val a + hex_val b) # decode_hex cs"
| "decode_hex cs = []"

section \<open>The digest OpenSSL is to compute\<close>

text \<open>
  \<open>generateHash\<close> asks OpenSSL for \<open>EVP_sha256()\<close>. What a library that keeps its
  word then writes is SHA-256 of the bytes fed (FIPS 180-4): the message padded to whole
  blocks of sixty-four bytes, each block expanded to sixty-four words and mixed into eight
  registers in sixty-four rounds. It stands in the hypotheses on the library only; the
  code of the repository does not compute it.
\<close>

type_synonym word32 = "32 word"

definition rotr :: "nat \<Rightarrow> word32 \<Rightarrow> word32" where
  "rotr n x = drop_bit n x OR push_bit (32 - n) x"

definition Ch :: "word32 \<Rightarrow> word32 \<Rightarrow> word32 \<Rightarrow> word32" where
  "Ch x y z = (x AND y) XOR (NOT x AND z)"

definition Maj :: "word32 \<Rightarrow> word32 \<Rightarrow> word32 \<Rightarrow> word32" where
  "Maj x y z = (x AND y) XOR (x AND z) XOR (y AND z)"

definition Sigma0 :: "word32 \<Rightarrow> word32" where
  "Sigma0 x = rotr 2 x XOR rotr 13 x XOR rotr 22 x"

definition Sigma1 :: "word32 \<Rightarrow> word32" where
  "Sigma1 x = rotr 6 x XOR rotr 11 x XOR rotr 25 x"

definition sigma0 :: "word32 \<Rightarrow> word32" where
  "sigma0 x = rotr 7 x XOR rotr 18 x XOR drop_bit 3 x"

definition sigma1 :: "word32 \<Rightarrow> word32" where
  "sigma1 x = rotr 17 x XOR rotr 19 x XOR drop_bit 10 x"

definition round_constants :: "word32 list" where
  "round_constants =
     [1116352408, 1899447441, 3049323471, 3921009573, 961987163, 1508970993, 2453635748, 2870763221,
      3624381080, 310598401, 607225278, 1426881987, 1925078388, 2162078206, 2614888103, 3248222580,
      3835390401, 4022224774, 264347078, 604807628, 770255983, 1249150122, 1555081692, 1996064986,
      2554220882, 2821834349, 2952996808, 3210313671, 3336571891, 3584528711, 113926993, 338241895,
      666307205, 773529912, 1294757372, 1396182291, 1695183700, 1986661051, 2177026350, 2456956037,
      2730485921, 2820302411, 3259730800, 3345764771, 3516065817, 3600352804, 4094571909, 275423344,
      430227734, 506948616, 659060556, 883997877, 958139571, 1322822218, 1537002063, 1747873779,
      1955562222, 2024104815, 2227730452, 2361852424, 2428436474, 2756734187, 3204031479, 3329325298]"

type_synonym registers =
  "word32 \<times> word32 \<times> word32 \<times> word32 \<times> word32 \<times> word32 \<times> word32 \<times> word32"

definition initial_registers :: registers where
  "initial_registers =
     (1779033703, 3144134277, 1013904242, 2773480762,
      1359893119, 2600822924, 528734635, 1541459225)"

definition pad_zeros :: "nat \<Rightarrow> byte list" where
  "pad_zeros len = replicate ((119 - len mod 64) mod 64) 0"

definition be64 :: "64 word \<Rightarrow> byte list" where
  "be64 n = map (\<lambda>k. ucast (drop_bit k n)) [56, 48, 40, 32, 24, 16, 8, 0]"

definition padded :: "string \<Rightarrow> byte list" where
  "padded m = map of_char m @ [128] @ pad_zeros (length m) @ be64 (word_of_nat (8 * length m))"

fun be_words :: "byte list \<Rightarrow> word32 list" where
  "be_words (a # b # c # d # bs) =
     (push_bit 24 (ucast a) OR push_bit 16 (ucast b) OR push_bit 8 (ucast c) OR ucast d) # be_words bs"
| "be_words bs = []"

fun schedule :: "nat \<Rightarrow> word32 list \<Rightarrow> word32 list" where
  "schedule 0 w = w"
| "schedule (Suc k) w =
     schedule k (w @ [sigma1 (w ! (length w - 2)) + w ! (length w - 7)
                      + sigma0 (w ! (length w - 15)) + w ! (length w - 16)])"

fun sha_round :: "registers \<Rightarrow> word32 \<times> word32 \<Rightarrow> registers" where
  "sha_round (a, b, c, d, e, f, g, h) (k, w) =
     (let t1 = h + Sigma1 e + Ch e f g + k + w; t2 = Sigma0 a + Maj a b c
      in (t1 + t2, a, b, c, d + t1, e, f, g))"

fun add_registers :: "registers \<Rightarrow> registers \<Rightarrow> registers" where
  "add_registers (a, b, c, d, e, f, g, h) (a', b', c', d', e', f', g', h') =
     (a + a', b + b', c + c', d + d', e + e', f + f', g + g', h + h')"

definition compress :: "registers \<Rightarrow> word32 list \<Rightarrow> registers" where
  "compress H block = add_registers H (foldl sha_round H (zip round_constants (schedule 48 block)))"

fun blocks :: "nat \<Rightarrow> word32 list \<Rightarrow> registers \<Rightarrow> registers" where
  "blocks 0 ws H = H"
| "blocks (Suc n) ws H = blocks n (drop 16 ws) (compress H (take 16 ws))"

definition be_bytes :: "word32 \<Rightarrow> byte list" where
  "be_bytes w = [ucast (drop_bit 24 w), ucast (drop_bit 16 w), ucast (drop_bit 8 w), ucast w]"

fun digest :: "registers \<Rightarrow> byte list" where
  "digest (a, b, c, d, e, f, g, h) = concat (map be_bytes [a, b, c, d, e, f, g, h])"

definition sha256 :: "string \<Rightarrow> byte list" where
  "sha256 m = (let ws = be_words (padded m) in digest (blocks (length ws div 16) ws initial_registers))"

section \<open>Error state\<close>

definition getLastError :: "state \<Rightarrow> string \<times> state" where
  "getLastError s = (lastError s, s)"

definition hasErrors :: "state \<Rightarrow> bool \<times> state" where
  "hasErrors s = (lastError s \<noteq> '''', s)"

definition clearErrors :: "state \<Rightarrow> state" where
  "clearErrors s = s\<lparr>lastError := ''''\<rparr>"

section \<open>Decompression stub\<close>

text \<open>\<open>DataProcessor::decompressFile\<close>: a comment and \<open>return true\<close>.\<close>

definition decompressFile :: "string \<Rightarrow> string \<Rightarrow> state \<Rightarrow> bool \<times> state" where
  "decompressFile inputPath outputPath s = (True, s)"

section \<open>Asynchronous dispatch\<close>

text \<open>
  \<open>Impl::processDataAsync\<close> creates a thread holding copies of \<open>data\<close> and
  \<open>callback\<close>, detaches it and returns. The creation of the thread is taken to
  succeed, and the object to live as long as its threads run.
\<close>

definition processDataAsync :: "string \<Rightarrow> callback \<Rightarrow> state \<Rightarrow> state" where
  "processDataAsync d cb s =
     s\<lparr>threads := threads s @ [\<lparr>data = d, callback = cb, phase = Submitted, received = []\<rparr>]\<rparr>"

text \<open>
  The body of thread \<open>i\<close>, in two steps. First the message and
  \<open>std::string result = generateHash(data)\<close>, under the answers \<open>L\<close> of OpenSSL. With
  \<open>logger_\<close> null the thread, and the process with it, ends at the message.
\<close>

definition thread_hash :: "openssl \<Rightarrow> nat \<Rightarrow> state \<Rightarrow> state" where
  "thread_hash L i s =
     (case log_call Level_info ''Processing data asynchronously'' s of
        None \<Rightarrow> (crashed s)\<lparr>threads := (threads s)[i := (threads s ! i)\<lparr>phase := Aborted\<rparr>]\<rparr>
      | Some s1 \<Rightarrow>
          (case generateHash L (data (threads s1 ! i)) s1 of
             (None, s2) \<Rightarrow>
               s2\<lparr>threads := (threads s2)[i := (threads s2 ! i)\<lparr>phase := Aborted\<rparr>]\<rparr>
           | (Some result, s2) \<Rightarrow>
               s2\<lparr>threads := (threads s2)[i := (threads s2 ! i)\<lparr>phase := Running result\<rparr>]\<rparr>))"

text \<open>
  Then \<open>callback(result)\<close>. The lambda has no handler: an exception leaves the thread
  function and \<open>std::terminate\<close> ends the process.
\<close>

definition thread_callback :: "nat \<Rightarrow> string \<Rightarrow> state \<Rightarrow> state" where
  "thread_callback i result s =
     (let t = threads s ! i in
      case callback t of
        Returns \<Rightarrow>
          s\<lparr>threads := (threads s)[i := t\<lparr>phase := Completed, received := received t @ [result]\<rparr>]\<rparr>
      | Throws \<Rightarrow>
          s\<lparr>threads := (threads s)[i := t\<lparr>phase := Aborted, received := received t @ [result]\<rparr>],
            terminated := True\<rparr>
      | Empty_function \<Rightarrow>
          s\<lparr>threads := (threads s)[i := t\<lparr>phase := Aborted\<rparr>], terminated := True\<rparr>)"

definition worker :: "openssl \<Rightarrow> nat \<Rightarrow> state \<Rightarrow> state" where
  "worker L i s =
     (if i < length (threads s) then
        (case phase (threads s ! i) of
           Submitted \<Rightarrow> thread_hash L i s
         | Running result \<Rightarrow> thread_callback i result s
         | Completed \<Rightarrow> s
         | Aborted \<Rightarrow> s)
      else s)"

text \<open>
  \<open>Impl::waitForCompletion\<close>:
  \<^verbatim>\<open>std::this_thread::sleep_for(std::chrono::milliseconds(100));\<close>
  The calling thread is blocked for 100 milliseconds and for as long after them as the
  scheduler keeps it (\<open>late\<close>). Nothing else is read or written.
\<close>

definition waitForCompletion :: "nat \<Rightarrow> state \<Rightarrow> state" where
  "waitForCompletion late s = s\<lparr>blocked_ms := blocked_ms s + 100 + late\<rparr>"

text \<open>
  An execution is the order in which the scheduler lets things happen: the caller submits a
  task, a detached thread takes its next step, or the caller's \<open>waitForCompletion\<close>
  returns. A step of a thread comes with what OpenSSL answers if the step calls it. Steps
  of threads that fall into the sleep stand before the \<open>Wait\<close>. A process that has
  ended takes no step.
\<close>

datatype action = Submit string callback | Work nat openssl | Wait nat

definition step :: "state \<Rightarrow> action \<Rightarrow> state" where
  "step s a =
     (if terminated s then s
      else (case a of
              Submit d cb \<Rightarrow> processDataAsync d cb s
            | Work i L \<Rightarrow> worker L i s
            | Wait late \<Rightarrow> waitForCompletion late s))"

fun run :: "action list \<Rightarrow> state \<Rightarrow> state" where
  "run [] s = s"
| "run (a # as) s = run as (step s a)"

text \<open>The answers of OpenSSL that an execution holds, in order.\<close>

fun answers :: "action list \<Rightarrow> openssl list" where
  "answers [] = []"
| "answers (Work i L # as) = L # answers as"
| "answers (Submit d cb # as) = answers as"
| "answers (Wait late # as) = answers as"

text \<open>The tasks submitted and not yet completed.\<close>

definition outstanding :: "state \<Rightarrow> nat" where
  "outstanding s = length (filter (\<lambda>t. phase t \<noteq> Completed) (threads s))"

text \<open>
  What the kept arguments of a task's callback must be at each place of its thread, when
  \<open>Ls\<close> are the answers OpenSSL has given since the task was submitted.
\<close>

definition task_ok :: "openssl list \<Rightarrow> task \<Rightarrow> bool" where
  "task_ok Ls t =
     (case phase t of
        Submitted \<Rightarrow> received t = []
      | Running result \<Rightarrow> received t = [] \<and> (\<exists>L \<in> set Ls. result = hash_of L (data t))
      | Completed \<Rightarrow> (\<exists>L \<in> set Ls. received t = [hash_of L (data t)])
      | Aborted \<Rightarrow>
          (if callback t = Empty_function then received t = []
           else (\<exists>L \<in> set Ls. received t = [hash_of L (data t)])))"

section \<open>Stand-ins for the library\<close>

text \<open>
  Two fixed behaviours of OpenSSL to run the model on: one that succeeds and writes the
  SHA-256 digest of what it is fed, and one that cannot allocate a context.
\<close>

definition openssl_sha256 :: openssl where
  "openssl_sha256 =
     \<lparr>EVP_MD_CTX_new = True, EVP_DigestInit_ex = 1, EVP_DigestUpdate = (\<lambda>x. 1),
      EVP_DigestFinal_ex = (\<lambda>x. (1, sha256 x))\<rparr>"

definition openssl_no_memory :: openssl where
  "openssl_no_memory =
     \<lparr>EVP_MD_CTX_new = False, EVP_DigestInit_ex = 0, EVP_DigestUpdate = (\<lambda>x. 0),
      EVP_DigestFinal_ex = (\<lambda>x. (0, []))\<rparr>"

text \<open>
  A second object made in a process where the logger's name is taken already: the first
  object registered \<open>data_processor\<close> with spdlog, nothing in the repository drops the
  name, and \<open>spdlog::stdout_color_mt\<close> throws on a name it knows. The text of
  \<open>what()\<close> is spdlog's and plays no part below.
\<close>

definition second_DataProcessor :: "(string \<rightharpoonup> string) \<Rightarrow> state" where
  "second_DataProcessor fs =
     Impl \<lparr>stdout_color_mt = Some ''logger with name data_processor already exists'',
           FT_Init_FreeType = 0\<rparr> fs"

section \<open>Properties of the hexadecimal rendering\<close>

lemma hex_val_digit: "n < 16 \<Longrightarrow> hex_val (hex_digit n) = n"
proof -
  have "\<forall>n<16. hex_val (hex_digit n) = n"
    by (simp add: All_less_Suc hex_digit_def hex_val_def eval_nat_numeral)
  then show "n < 16 \<Longrightarrow> hex_val (hex_digit n) = n" by blast
qed

lemma hex_digit_in: "n < 16 \<Longrightarrow> hex_digit n \<in> set ''0123456789abcdef''"
  unfolding hex_digit_def by (rule nth_mem) simp

lemma unat_byte_less: "unat (b :: byte) < 256"
proof -
  have "unat b < 2 ^ LENGTH(8)" by (rule unsigned_less)
  then show ?thesis by simp
qed

lemma cast_val: "nat (static_cast_int b mod 2 ^ 32) = unat b"
proof -
  have "uint b < 2 ^ LENGTH(8)" by (rule unsigned_less)
  then have lt: "uint b < 2 ^ 32" by simp
  have ge: "0 \<le> uint b" by simp
  have "uint b mod 2 ^ 32 = uint b" by (rule mod_pos_pos_trivial [OF ge lt])
  then show ?thesis unfolding static_cast_int_def by simp
qed

lemma put_hex_int_byte: "put_hex_int (static_cast_int b) = to_hex (unat b)"
  by (simp only: put_hex_int_def cast_val)

lemma to_hex_one: "n < 16 \<Longrightarrow> to_hex n = [hex_digit n]"
  by (subst to_hex.simps) simp

lemma to_hex_two:
  "16 \<le> n \<Longrightarrow> n < 256 \<Longrightarrow> to_hex n = [hex_digit (n div 16), hex_digit (n mod 16)]"
  by (subst to_hex.simps) (simp add: to_hex_one)

text \<open>Every byte comes out as exactly two digits, the high one first.\<close>

lemma put_hex_byte_eq:
  "put_hex_byte b = [hex_digit (unat b div 16), hex_digit (unat b mod 16)]"
proof (cases "unat b < 16")
  case True
  then show ?thesis
    by (simp add: put_hex_byte_def put_hex_int_byte setw_setfill_def to_hex_one hex_digit_def)
next
  case False
  then show ?thesis using unat_byte_less [of b]
    by (simp add: put_hex_byte_def put_hex_int_byte setw_setfill_def to_hex_two)
qed

lemma hex_loop_append: "hex_loop hash ss = ss @ concat (map put_hex_byte hash)"
  by (induction hash arbitrary: ss) simp_all

lemma length_hex_loop: "length (hex_loop hash []) = 2 * length hash"
  by (induction hash) (simp_all add: hex_loop_append put_hex_byte_eq)

lemma set_put_hex_byte: "set (put_hex_byte b) \<subseteq> set ''0123456789abcdef''"
proof -
  have "unat b div 16 < 16" using unat_byte_less [of b] by simp
  moreover have "unat b mod 16 < 16" by simp
  ultimately show ?thesis
    using hex_digit_in [of "unat b div 16"] hex_digit_in [of "unat b mod 16"]
    by (simp add: put_hex_byte_eq)
qed

lemma set_hex_loop: "set (hex_loop hash []) \<subseteq> set ''0123456789abcdef''"
proof (induction hash)
  case Nil
  show ?case by simp
next
  case (Cons b hash)
  have "set (hex_loop (b # hash) []) = set (put_hex_byte b) \<union> set (hex_loop hash [])"
    by (simp add: hex_loop_append)
  then show ?case using Cons.IH set_put_hex_byte [of b] by blast
qed

lemma decode_put_hex_byte: "decode_hex (put_hex_byte b @ cs) = b # decode_hex cs"
proof -
  have "unat b div 16 < 16" using unat_byte_less [of b] by simp
  then have "16 * hex_val (hex_digit (unat b div 16)) + hex_val (hex_digit (unat b mod 16)) = unat b"
    by (simp add: hex_val_digit)
  then show ?thesis by (simp add: put_hex_byte_eq)
qed

lemma decode_hex_loop: "decode_hex (hex_loop hash []) = hash"
  by (induction hash) (simp_all add: hex_loop_append decode_put_hex_byte)

section \<open>Properties of the digest\<close>

lemma length_digest: "length (digest H) = 32"
  by (cases H rule: digest.cases) (simp add: be_bytes_def)

lemma length_sha256: "length (sha256 m) = 32"
  by (simp add: sha256_def Let_def length_digest)

section \<open>Properties of generateHash\<close>

text \<open>
  On an object with a logger \<open>generateHash\<close> returns, and the string depends on the
  answers of OpenSSL and on the data only; only \<open>logger_\<close> is written.
\<close>

lemma log_return_Some:
  "logger s = Some ms \<Longrightarrow> log_return lv msg r s = (Some r, s\<lparr>logger := Some (ms @ [(lv, msg)])\<rparr>)"
  by (simp add: log_return_def log_call_def)

lemma log_return_None: "logger s = None \<Longrightarrow> log_return lv msg r s = (None, crashed s)"
  by (simp add: log_return_def log_call_def)

lemma generateHash_fst: "logger s \<noteq> None \<Longrightarrow> fst (generateHash L d s) = Some (hash_of L d)"
  by (auto simp: generateHash_def hash_of_def digest_ok_def log_return_Some split: prod.split)

lemma generateHash_None: "logger s = None \<Longrightarrow> generateHash L d s = (None, crashed s)"
  by (simp add: generateHash_def log_return_None split: prod.split)

lemma generateHash_keeps:
  assumes "logger s \<noteq> None"
  shows "threads (snd (generateHash L d s)) = threads s"
    and "terminated (snd (generateHash L d s)) = terminated s"
    and "blocked_ms (snd (generateHash L d s)) = blocked_ms s"
    and "lastError (snd (generateHash L d s)) = lastError s"
    and "files (snd (generateHash L d s)) = files s"
    and "logger (snd (generateHash L d s)) \<noteq> None"
  using assms by (auto simp: generateHash_def log_return_Some split: prod.split)

text \<open>The four failures, each with its message, and the success.\<close>

lemma generateHash_paths:
  assumes "logger s = Some ms"
  shows "\<not> EVP_MD_CTX_new L \<Longrightarrow>
           generateHash L d s =
             (Some '''', s\<lparr>logger := Some (ms @ [(Level_error, ''Failed to create hash context'')])\<rparr>)"
    and "EVP_MD_CTX_new L \<Longrightarrow> EVP_DigestInit_ex L \<noteq> 1 \<Longrightarrow>
           generateHash L d s =
             (Some '''', s\<lparr>logger := Some (ms @ [(Level_error, ''Failed to initialize hash'')])\<rparr>)"
    and "EVP_MD_CTX_new L \<Longrightarrow> EVP_DigestInit_ex L = 1 \<Longrightarrow> EVP_DigestUpdate L d \<noteq> 1 \<Longrightarrow>
           generateHash L d s =
             (Some '''', s\<lparr>logger := Some (ms @ [(Level_error, ''Failed to update hash'')])\<rparr>)"
    and "EVP_MD_CTX_new L \<Longrightarrow> EVP_DigestInit_ex L = 1 \<Longrightarrow> EVP_DigestUpdate L d = 1 \<Longrightarrow>
         fst (EVP_DigestFinal_ex L d) \<noteq> 1 \<Longrightarrow>
           generateHash L d s =
             (Some '''', s\<lparr>logger := Some (ms @ [(Level_error, ''Failed to finalize hash'')])\<rparr>)"
    and "digest_ok L d \<Longrightarrow>
           generateHash L d s =
             (Some (hex_loop (snd (EVP_DigestFinal_ex L d)) ''''),
              s\<lparr>logger := Some (ms @ [(Level_info, ''Hash generated successfully'')])\<rparr>)"
  using assms
  by (auto simp: generateHash_def digest_ok_def log_return_Some split: prod.split)

section \<open>Properties of the dispatch\<close>

lemma new_DataProcessor_eq:
  "new_DataProcessor fs =
     \<lparr>logger = Some [(Level_info, ''All components initialized successfully'')],
      processedItems = 0, errorCount = 0, lastError = '''',
      threads = [], blocked_ms = 0, terminated = False, files = fs\<rparr>"
  by (simp add: new_DataProcessor_def Impl_def initializeComponents_def)

lemma second_DataProcessor_eq:
  "second_DataProcessor fs =
     \<lparr>logger = None, processedItems = 0, errorCount = 0,
      lastError = ''logger with name data_processor already exists'',
      threads = [], blocked_ms = 0, terminated = False, files = fs\<rparr>"
  by (simp add: second_DataProcessor_def Impl_def initializeComponents_def)

text \<open>The first step of a thread on an object with a logger.\<close>

lemma thread_hash_logger:
  assumes "logger s \<noteq> None"
  shows "threads (thread_hash L i s) =
           (threads s)[i := (threads s ! i)\<lparr>phase := Running (hash_of L (data (threads s ! i)))\<rparr>]"
    and "terminated (thread_hash L i s) = terminated s"
    and "blocked_ms (thread_hash L i s) = blocked_ms s"
    and "logger (thread_hash L i s) \<noteq> None"
proof -
  obtain ms where ms: "logger s = Some ms" using assms by auto
  let ?s1 = "s\<lparr>logger := Some (ms @ [(Level_info, ''Processing data asynchronously'')])\<rparr>"
  have lc: "log_call Level_info ''Processing data asynchronously'' s = Some ?s1"
    by (simp add: log_call_def ms)
  have l1: "logger ?s1 \<noteq> None" by simp
  obtain r s2 where g: "generateHash L (data (threads s ! i)) ?s1 = (r, s2)"
    by (cases "generateHash L (data (threads s ! i)) ?s1")
  have r: "r = Some (hash_of L (data (threads s ! i)))"
    using generateHash_fst [OF l1, of L "data (threads s ! i)"] g by simp
  have k: "threads s2 = threads s" "terminated s2 = terminated s" "blocked_ms s2 = blocked_ms s"
    "logger s2 \<noteq> None"
    using generateHash_keeps(1,2,3,6) [OF l1, of L "data (threads s ! i)"] g by simp_all
  show "threads (thread_hash L i s) =
           (threads s)[i := (threads s ! i)\<lparr>phase := Running (hash_of L (data (threads s ! i)))\<rparr>]"
    by (simp add: thread_hash_def lc g r k)
  show "terminated (thread_hash L i s) = terminated s"
    by (simp add: thread_hash_def lc g r k)
  show "blocked_ms (thread_hash L i s) = blocked_ms s"
    by (simp add: thread_hash_def lc g r k)
  show "logger (thread_hash L i s) \<noteq> None"
    using k(4) by (simp add: thread_hash_def lc g r)
qed


lemma step_terminated: "terminated s \<Longrightarrow> step s a = s"
  by (simp add: step_def)

lemma step_Submit:
  "\<not> terminated s \<Longrightarrow> step s (Submit d cb) = processDataAsync d cb s"
  by (simp add: step_def)

lemma step_Wait: "\<not> terminated s \<Longrightarrow> step s (Wait late) = waitForCompletion late s"
  by (simp add: step_def)

lemma step_Work_outside:
  "\<not> i < length (threads s) \<Longrightarrow> step s (Work i L) = s"
  by (simp add: step_def worker_def)

lemma step_Work_Submitted:
  assumes "\<not> terminated s" and "i < length (threads s)" and "phase (threads s ! i) = Submitted"
    and "logger s \<noteq> None"
  shows "threads (step s (Work i L)) =
           (threads s)[i := (threads s ! i)\<lparr>phase := Running (hash_of L (data (threads s ! i)))\<rparr>]"
    and "\<not> terminated (step s (Work i L))"
    and "blocked_ms (step s (Work i L)) = blocked_ms s"
    and "logger (step s (Work i L)) \<noteq> None"
  using assms by (simp_all add: step_def worker_def thread_hash_logger)

lemma step_Work_Running:
  assumes "\<not> terminated s" and "i < length (threads s)" and "phase (threads s ! i) = Running r"
  shows "step s (Work i L) = thread_callback i r s"
  using assms by (simp add: step_def worker_def)

lemma step_Work_settled:
  assumes "phase (threads s ! i) = Completed \<or> phase (threads s ! i) = Aborted"
  shows "step s (Work i L) = s"
  using assms by (auto simp: step_def worker_def)

lemma thread_callback_logger: "logger (thread_callback i r s) = logger s"
  by (simp add: thread_callback_def Let_def split: callback.split)

text \<open>The logger, once there, stays.\<close>

lemma step_logger: "logger s \<noteq> None \<Longrightarrow> logger (step s a) \<noteq> None"
proof (cases "terminated s")
  case True
  assume "logger s \<noteq> None"
  then show ?thesis using True by (simp add: step_terminated)
next
  case False
  assume l: "logger s \<noteq> None"
  show ?thesis
  proof (cases a)
    case (Submit d cb)
    then show ?thesis using l False by (simp add: step_Submit processDataAsync_def)
  next
    case (Wait late)
    then show ?thesis using l False by (simp add: step_Wait waitForCompletion_def)
  next
    case (Work i L)
    show ?thesis
    proof (cases "i < length (threads s)")
      case outside: False
      then show ?thesis using l Work by (simp add: step_Work_outside)
    next
      case True
      show ?thesis
      proof (cases "phase (threads s ! i)")
        case Submitted
        then show ?thesis using Work step_Work_Submitted(4) [OF False True Submitted l] by simp
      next
        case (Running r)
        then show ?thesis using Work l
          by (simp add: step_Work_Running [OF False True Running] thread_callback_logger)
      next
        case Completed
        then show ?thesis using Work l by (simp add: step_Work_settled)
      next
        case Aborted
        then show ?thesis using Work l by (simp add: step_Work_settled)
      qed
    qed
  qed
qed


lemma run_append: "run (as @ bs) s = run bs (run as s)"
  by (induction as arbitrary: s) simp_all

lemma answers_append: "answers (as @ bs) = answers as @ answers bs"
  by (induction as rule: answers.induct) simp_all

text \<open>
  Every step keeps \<open>task_ok\<close> for every thread, with the answers of the step added, and
  leaves the data and the callback of every thread as they are.
\<close>

lemma task_ok_mono: "task_ok Ls t \<Longrightarrow> set Ls \<subseteq> set Ls' \<Longrightarrow> task_ok Ls' t"
  by (cases "phase t") (auto simp: task_ok_def split: if_splits)

lemma task_ok_Submitted: "task_ok Ls \<lparr>data = d, callback = cb, phase = Submitted, received = []\<rparr>"
  by (simp add: task_ok_def)

lemma task_ok_hashed:
  "task_ok Ls t \<Longrightarrow> phase t = Submitted \<Longrightarrow>
   task_ok (Ls @ [L]) (t\<lparr>phase := Running (hash_of L (data t))\<rparr>)"
  by (simp add: task_ok_def)

lemma task_ok_called:
  assumes "task_ok Ls t" and "phase t = Running r"
  shows "task_ok Ls (t\<lparr>phase := Completed, received := received t @ [r]\<rparr>)"
    and "callback t \<noteq> Empty_function \<Longrightarrow> task_ok Ls (t\<lparr>phase := Aborted, received := received t @ [r]\<rparr>)"
    and "callback t = Empty_function \<Longrightarrow> task_ok Ls (t\<lparr>phase := Aborted\<rparr>)"
  using assms by (auto simp: task_ok_def)

lemma thread_callback_task:
  assumes "i < length (threads s)" and "task_ok Ls (threads s ! i)"
    and "phase (threads s ! i) = Running r"
  shows "task_ok Ls (threads (thread_callback i r s) ! i)"
    and "data (threads (thread_callback i r s) ! i) = data (threads s ! i)"
    and "callback (threads (thread_callback i r s) ! i) = callback (threads s ! i)"
proof -
  note c = task_ok_called [OF assms(2,3)]
  show "task_ok Ls (threads (thread_callback i r s) ! i)"
    using assms(1) c by (cases "callback (threads s ! i)") (simp_all add: thread_callback_def Let_def)
  show "data (threads (thread_callback i r s) ! i) = data (threads s ! i)"
    using assms(1) by (cases "callback (threads s ! i)") (simp_all add: thread_callback_def Let_def)
  show "callback (threads (thread_callback i r s) ! i) = callback (threads s ! i)"
    using assms(1) by (cases "callback (threads s ! i)") (simp_all add: thread_callback_def Let_def)
qed

lemma thread_callback_other:
  "j \<noteq> i \<Longrightarrow> threads (thread_callback j r s) ! i = threads s ! i"
  by (simp add: thread_callback_def Let_def split: callback.split)

lemma thread_callback_length: "length (threads (thread_callback j r s)) = length (threads s)"
  by (simp add: thread_callback_def Let_def split: callback.split)

lemma step_length: "logger s \<noteq> None \<Longrightarrow> length (threads s) \<le> length (threads (step s a))"
proof (cases "terminated s")
  case True
  then show ?thesis by (simp add: step_terminated)
next
  case False
  assume l: "logger s \<noteq> None"
  show ?thesis
  proof (cases a)
    case (Submit d cb)
    then show ?thesis using False by (simp add: step_Submit processDataAsync_def)
  next
    case (Wait late)
    then show ?thesis using False by (simp add: step_Wait waitForCompletion_def)
  next
    case (Work j L)
    show ?thesis
    proof (cases "j < length (threads s)")
      case outside: False
      then show ?thesis using Work by (simp add: step_Work_outside)
    next
      case True
      show ?thesis
      proof (cases "phase (threads s ! j)")
        case Submitted
        then show ?thesis using Work
          by (simp add: step_Work_Submitted(1) [OF False True Submitted l])
      next
        case (Running r)
        then show ?thesis using Work
          by (simp add: step_Work_Running [OF False True Running] thread_callback_length)
      next
        case Completed
        then show ?thesis using Work by (simp add: step_Work_settled)
      next
        case Aborted
        then show ?thesis using Work by (simp add: step_Work_settled)
      qed
    qed
  qed
qed

lemma step_task:
  assumes l: "logger s \<noteq> None" and i: "i < length (threads s)"
    and t: "task_ok Ls (threads s ! i)"
  shows "task_ok (Ls @ answers [a]) (threads (step s a) ! i)
     \<and> data (threads (step s a) ! i) = data (threads s ! i)
     \<and> callback (threads (step s a) ! i) = callback (threads s ! i)"
proof -
  have t': "task_ok (Ls @ answers [a]) (threads s ! i)"
    using t by (rule task_ok_mono) simp
  show ?thesis
  proof (cases "terminated s")
    case True
    then show ?thesis using t' by (simp add: step_terminated)
  next
    case False
    show ?thesis
    proof (cases a)
      case (Submit d cb)
      then show ?thesis using t i False
        by (simp add: step_Submit processDataAsync_def nth_append)
    next
      case (Wait late)
      then show ?thesis using t False by (simp add: step_Wait waitForCompletion_def)
    next
      case (Work j L)
      show ?thesis
      proof (cases "j < length (threads s)")
        case outside: False
        then show ?thesis using Work t' by (simp add: step_Work_outside)
      next
        case True
        show ?thesis
        proof (cases "phase (threads s ! j)")
          case Submitted
          note st = step_Work_Submitted(1) [OF False True Submitted l, of L]
          show ?thesis
          proof (cases "j = i")
            case True
            then show ?thesis using Work i st task_ok_hashed [OF t, of L] Submitted by simp
          next
            case neq: False
            then show ?thesis using Work st t' by simp
          qed
        next
          case (Running r)
          note st = step_Work_Running [OF False True Running, of L]
          show ?thesis
          proof (cases "j = i")
            case True
            then show ?thesis
              using Work st Running thread_callback_task [OF i t', of r] by simp
          next
            case neq: False
            then show ?thesis using Work st t' by (simp add: thread_callback_other)
          qed
        next
          case Completed
          then show ?thesis using Work t' by (simp add: step_Work_settled)
        next
          case Aborted
          then show ?thesis using Work t' by (simp add: step_Work_settled)
        qed
      qed
    qed
  qed
qed


text \<open>A task is \<open>task_ok\<close> from its submission on, so every thread of an execution is.\<close>

lemma reachable_task_ok:
  "logger (run as (new_DataProcessor fs)) \<noteq> None
   \<and> (\<forall>i < length (threads (run as (new_DataProcessor fs))).
        task_ok (answers as) (threads (run as (new_DataProcessor fs)) ! i))"
proof (induction as rule: rev_induct)
  case Nil
  show ?case by (simp add: new_DataProcessor_eq)
next
  case (snoc a as)
  let ?s = "run as (new_DataProcessor fs)"
  have run: "run (as @ [a]) (new_DataProcessor fs) = step ?s a"
    by (simp add: run_append)
  have l: "logger ?s \<noteq> None" using snoc.IH by simp
  have "task_ok (answers (as @ [a])) (threads (step ?s a) ! i)"
    if k: "i < length (threads (step ?s a))" for i
  proof (cases "i < length (threads ?s)")
    case True
    then have "task_ok (answers as) (threads ?s ! i)" using snoc.IH by simp
    then show ?thesis using step_task [OF l True, of "answers as" a]
      by (simp add: answers_append)
  next
    case False
    then have nt: "\<not> terminated ?s" using k by (auto simp: step_terminated)
    show ?thesis
    proof (cases a)
      case (Submit d cb)
      then show ?thesis using k False nt
        by (simp add: step_Submit processDataAsync_def nth_append task_ok_Submitted)
    next
      case (Wait late)
      then show ?thesis using k False nt by (simp add: step_Wait waitForCompletion_def)
    next
      case (Work j L)
      show ?thesis
      proof (cases "j < length (threads ?s)")
        case outside: False
        then show ?thesis using Work k False by (simp add: step_Work_outside)
      next
        case True
        show ?thesis
        proof (cases "phase (threads ?s ! j)")
          case Submitted
          then show ?thesis using Work k False
            by (simp add: step_Work_Submitted(1) [OF nt True Submitted l])
        next
          case (Running r)
          then show ?thesis using Work k False
            by (simp add: step_Work_Running [OF nt True Running] thread_callback_length)
        next
          case Completed
          then show ?thesis using Work k False by (simp add: step_Work_settled)
        next
          case Aborted
          then show ?thesis using Work k False by (simp add: step_Work_settled)
        qed
      qed
    qed
  qed
  moreover have "logger (step ?s a) \<noteq> None" using l by (rule step_logger)
  ultimately show ?case by (simp only: run) blast
qed

text \<open>A thread that has ended is left alone by every later step.\<close>

lemma step_settled:
  assumes l: "logger s \<noteq> None" and i: "i < length (threads s)"
    and e: "phase (threads s ! i) = Completed \<or> phase (threads s ! i) = Aborted"
  shows "threads (step s a) ! i = threads s ! i"
proof (cases "terminated s")
  case True
  then show ?thesis by (simp add: step_terminated)
next
  case False
  show ?thesis
  proof (cases a)
    case (Submit d cb)
    then show ?thesis using i False by (simp add: step_Submit processDataAsync_def nth_append)
  next
    case (Wait late)
    then show ?thesis using False by (simp add: step_Wait waitForCompletion_def)
  next
    case (Work j L)
    show ?thesis
    proof (cases "j = i")
      case True
      then show ?thesis using Work e by (simp add: step_Work_settled)
    next
      case neq: False
      show ?thesis
      proof (cases "j < length (threads s)")
        case outside: False
        then show ?thesis using Work by (simp add: step_Work_outside)
      next
        case True
        show ?thesis
        proof (cases "phase (threads s ! j)")
          case Submitted
          then show ?thesis using Work neq
            by (simp add: step_Work_Submitted(1) [OF False True Submitted l])
        next
          case (Running r)
          then show ?thesis using Work neq
            by (simp add: step_Work_Running [OF False True Running] thread_callback_other)
        next
          case Completed
          then show ?thesis using Work by (simp add: step_Work_settled)
        next
          case Aborted
          then show ?thesis using Work by (simp add: step_Work_settled)
        qed
      qed
    qed
  qed
qed

lemma run_settled:
  assumes "logger s \<noteq> None" and "i < length (threads s)"
    and "phase (threads s ! i) = Completed \<or> phase (threads s ! i) = Aborted"
  shows "threads (run as s) ! i = threads s ! i"
  using assms
proof (induction as arbitrary: s)
  case Nil
  then show ?case by simp
next
  case (Cons a as)
  have st: "threads (step s a) ! i = threads s ! i" using Cons.prems by (rule step_settled)
  have l': "logger (step s a) \<noteq> None" using Cons.prems(1) by (rule step_logger)
  have i': "i < length (threads (step s a))"
    using Cons.prems(2) step_length [OF Cons.prems(1), of a] by simp
  have "threads (run as (step s a)) ! i = threads (step s a) ! i"
    using Cons.prems(3) st by (intro Cons.IH [OF l' i']) simp
  then show ?case using st by simp
qed

text \<open>The two steps of a thread, taken one after the other.\<close>

lemma work_twice_Submitted:
  assumes "\<not> terminated s" and "i < length (threads s)" and "phase (threads s ! i) = Submitted"
    and "logger s \<noteq> None"
  shows "threads (run [Work i L1, Work i L2] s) ! i =
     (case callback (threads s ! i) of
        Returns \<Rightarrow> (threads s ! i)\<lparr>phase := Completed,
          received := received (threads s ! i) @ [hash_of L1 (data (threads s ! i))]\<rparr>
      | Throws \<Rightarrow> (threads s ! i)\<lparr>phase := Aborted,
          received := received (threads s ! i) @ [hash_of L1 (data (threads s ! i))]\<rparr>
      | Empty_function \<Rightarrow> (threads s ! i)\<lparr>phase := Aborted\<rparr>)"
    and "terminated (run [Work i L1, Work i L2] s) = (callback (threads s ! i) \<noteq> Returns)"
    and "i < length (threads (run [Work i L1, Work i L2] s))"
    and "logger (run [Work i L1, Work i L2] s) \<noteq> None"
proof -
  let ?h = "hash_of L1 (data (threads s ! i))"
  let ?s1 = "step s (Work i L1)"
  note s1 = step_Work_Submitted [OF assms, of L1]
  have len: "i < length (threads ?s1)" using assms(2) by (simp add: s1(1))
  have ph: "phase (threads ?s1 ! i) = Running ?h" using assms(2) by (simp add: s1(1))
  have s2: "step ?s1 (Work i L2) = thread_callback i ?h ?s1"
    by (rule step_Work_Running [OF s1(2) len ph])
  have t1: "threads ?s1 ! i = (threads s ! i)\<lparr>phase := Running ?h\<rparr>"
    using assms(2) by (simp add: s1(1))
  show "threads (run [Work i L1, Work i L2] s) ! i =
     (case callback (threads s ! i) of
        Returns \<Rightarrow> (threads s ! i)\<lparr>phase := Completed,
          received := received (threads s ! i) @ [?h]\<rparr>
      | Throws \<Rightarrow> (threads s ! i)\<lparr>phase := Aborted,
          received := received (threads s ! i) @ [?h]\<rparr>
      | Empty_function \<Rightarrow> (threads s ! i)\<lparr>phase := Aborted\<rparr>)"
    using len by (simp add: s2 thread_callback_def Let_def t1 split: callback.split)
  show "terminated (run [Work i L1, Work i L2] s) = (callback (threads s ! i) \<noteq> Returns)"
    using s1(2) by (simp add: s2 thread_callback_def Let_def t1 split: callback.split)
  show "i < length (threads (run [Work i L1, Work i L2] s))"
    using len by (simp add: s2 thread_callback_length)
  show "logger (run [Work i L1, Work i L2] s) \<noteq> None"
    using s1(4) by (simp add: s2 thread_callback_logger)
qed

lemma work_twice_received:
  assumes "\<not> terminated s" and "i < length (threads s)" and "task_ok Ls (threads s ! i)"
    and "callback (threads s ! i) \<noteq> Empty_function" and "logger s \<noteq> None"
  shows "i < length (threads (run [Work i L1, Work i L2] s))
     \<and> length (received (threads (run [Work i L1, Work i L2] s) ! i)) = 1
     \<and> (phase (threads s ! i) = Submitted \<longrightarrow>
          received (threads (run [Work i L1, Work i L2] s) ! i)
            = [hash_of L1 (data (threads s ! i))])
     \<and> (phase (threads (run [Work i L1, Work i L2] s) ! i) = Completed
        \<or> phase (threads (run [Work i L1, Work i L2] s) ! i) = Aborted)
     \<and> logger (run [Work i L1, Work i L2] s) \<noteq> None"
proof (cases "phase (threads s ! i)")
  case Submitted
  then have "received (threads s ! i) = []" using assms(3) by (simp add: task_ok_def)
  then show ?thesis
    using work_twice_Submitted [OF assms(1,2) Submitted assms(5), of L1 L2] assms(4) Submitted
    by (cases "callback (threads s ! i)") (simp_all del: run.simps)
next
  case (Running r)
  then have e: "received (threads s ! i) = []"
    using assms(3) by (simp add: task_ok_def)
  let ?s1 = "step s (Work i L1)"
  have s1: "?s1 = thread_callback i r s" by (rule step_Work_Running [OF assms(1,2) Running])
  have t1: "i < length (threads ?s1)
      \<and> length (received (threads ?s1 ! i)) = 1
      \<and> (phase (threads ?s1 ! i) = Completed \<or> phase (threads ?s1 ! i) = Aborted)
      \<and> logger ?s1 \<noteq> None"
    using assms(2,4,5) e
    by (cases "callback (threads s ! i)") (simp_all add: s1 thread_callback_def Let_def)
  then have "step ?s1 (Work i L2) = ?s1" by (simp add: step_Work_settled)
  then show ?thesis using t1 Running by simp
next
  case Completed
  then have "length (received (threads s ! i)) = 1"
    using assms(3) by (auto simp: task_ok_def)
  then show ?thesis using Completed assms(2,5) by (simp add: step_Work_settled)
next
  case Aborted
  then have "length (received (threads s ! i)) = 1"
    using assms(3,4) by (auto simp: task_ok_def)
  then show ?thesis using Aborted assms(2,5) by (simp add: step_Work_settled)
qed









lemma sha256_abc:
  "sha256 ''abc'' =
     [0xba, 0x78, 0x16, 0xbf, 0x8f, 0x01, 0xcf, 0xea, 0x41, 0x41, 0x40, 0xde, 0x5d, 0xae, 0x22, 0x23,
      0xb0, 0x03, 0x61, 0xa3, 0x96, 0x17, 0x7a, 0x9c, 0xb4, 0x10, 0xff, 0x61, 0xf2, 0x00, 0x15, 0xad]"
  by code_simp

text \<open>Executions and hashes evaluated, for the instances below.\<close>

lemma hash_of_abc:
  "hash_of openssl_sha256 ''abc''
     = ''ba7816bf8f01cfea414140de5dae2223b00361a396177a9cb410ff61f20015ad''"
  by (simp add: hash_of_def digest_ok_def openssl_sha256_def sha256_abc hex_loop_append
      put_hex_byte_eq hex_digit_def)

lemma hash_of_no_memory: "hash_of openssl_no_memory d = ''''"
  by (simp add: hash_of_def digest_ok_def openssl_no_memory_def)

lemma abc_submitted:
  "run [Submit ''abc'' cb, Wait 0] (new_DataProcessor Map.empty) =
     \<lparr>logger = Some [(Level_info, ''All components initialized successfully'')],
      processedItems = 0, errorCount = 0, lastError = '''',
      threads = [\<lparr>data = ''abc'', callback = cb, phase = Submitted, received = []\<rparr>],
      blocked_ms = 100, terminated = False, files = Map.empty\<rparr>"
  by (simp add: step_def new_DataProcessor_eq processDataAsync_def waitForCompletion_def)

lemma abc_worked:
  "threads (run [Submit ''abc'' cb, Work 0 L1, Work 0 L2] (new_DataProcessor Map.empty)) =
     [case cb of
        Returns \<Rightarrow> \<lparr>data = ''abc'', callback = cb, phase = Completed, received = [hash_of L1 ''abc'']\<rparr>
      | Throws \<Rightarrow> \<lparr>data = ''abc'', callback = cb, phase = Aborted, received = [hash_of L1 ''abc'']\<rparr>
      | Empty_function \<Rightarrow> \<lparr>data = ''abc'', callback = cb, phase = Aborted, received = []\<rparr>]"
  "terminated (run [Submit ''abc'' cb, Work 0 L1, Work 0 L2] (new_DataProcessor Map.empty))
     = (cb \<noteq> Returns)"
  by (cases cb; simp add: step_def new_DataProcessor_eq processDataAsync_def worker_def
      thread_hash_logger thread_callback_def)+

section \<open>The claims about the dispatch\<close>

text \<open>
  Claim C3, as amended. In every state that an execution reaches from an object set up
  without a failure, the callback of every submitted task has been run at most once, and
  only with a string that \<open>generateHash\<close> returns for the task's data under answers
  that OpenSSL gave in the execution; it has been run exactly once when the task's thread
  is past the call. While the process has not been ended, a thread with a callback target
  gets there when it takes its two steps, and from then on, whatever happens, its callback
  has been run exactly once: for a task not yet started, with the string that
  \<open>generateHash\<close> returns under the answers of its first step.
\<close>

theorem callback_invoked_exactly_once:
  assumes "s = run as (new_DataProcessor fs)" and "i < length (threads s)"
  shows "length (received (threads s ! i)) \<le> 1
     \<and> (\<forall>r \<in> set (received (threads s ! i)).
          \<exists>L \<in> set (answers as). fst (generateHash L (data (threads s ! i)) s) = Some r)
     \<and> (phase (threads s ! i) = Completed \<longrightarrow> length (received (threads s ! i)) = 1)
     \<and> (\<not> terminated s \<and> callback (threads s ! i) \<noteq> Empty_function \<longrightarrow>
          (\<forall>L1 L2 bs.
             length (received (threads (run (Work i L1 # Work i L2 # bs) s) ! i)) = 1))
     \<and> (\<not> terminated s \<and> callback (threads s ! i) \<noteq> Empty_function
          \<and> phase (threads s ! i) = Submitted \<longrightarrow>
          (\<forall>L1. \<exists>r. fst (generateHash L1 (data (threads s ! i)) s) = Some r
             \<and> (\<forall>L2 bs. received (threads (run (Work i L1 # Work i L2 # bs) s) ! i) = [r])))"
proof -
  have l: "logger s \<noteq> None" and t: "task_ok (answers as) (threads s ! i)"
    using assms reachable_task_ok [of as fs] by simp_all
  have a: "length (received (threads s ! i)) \<le> 1"
    using t by (cases "phase (threads s ! i)") (auto simp: task_ok_def split: if_splits)
  have b: "\<exists>L \<in> set (answers as). fst (generateHash L (data (threads s ! i)) s) = Some r"
    if "r \<in> set (received (threads s ! i))" for r
    using t that
    by (cases "phase (threads s ! i)") (auto simp: task_ok_def generateHash_fst [OF l] split: if_splits)
  have c: "length (received (threads s ! i)) = 1" if "phase (threads s ! i) = Completed"
    using t that by (auto simp: task_ok_def)
  have d: "length (received (threads (run (Work i L1 # Work i L2 # bs) s) ! i)) = 1
      \<and> (phase (threads s ! i) = Submitted \<longrightarrow>
           received (threads (run (Work i L1 # Work i L2 # bs) s) ! i)
             = [hash_of L1 (data (threads s ! i))])"
    if live: "\<not> terminated s" and cb: "callback (threads s ! i) \<noteq> Empty_function"
    for L1 L2 bs
  proof -
    let ?s2 = "run [Work i L1, Work i L2] s"
    note w = work_twice_received [OF live assms(2) t cb l, of L1 L2]
    have "threads (run bs ?s2) ! i = threads ?s2 ! i"
      using run_settled [of ?s2 i bs] w by blast
    moreover have "run (Work i L1 # Work i L2 # bs) s = run bs ?s2" by simp
    ultimately show ?thesis using w by simp
  qed
  have e: "\<exists>r. fst (generateHash L1 (data (threads s ! i)) s) = Some r
      \<and> (\<forall>L2 bs. received (threads (run (Work i L1 # Work i L2 # bs) s) ! i) = [r])"
    if "\<not> terminated s" and "callback (threads s ! i) \<noteq> Empty_function"
      and "phase (threads s ! i) = Submitted" for L1
    using d [OF that(1,2)] that(3) generateHash_fst [OF l, of L1 "data (threads s ! i)"] by blast
  show ?thesis using a b c d e by blast
qed

text \<open>
  The theorem at a task submitted before a wait, which then runs and stays as it is through
  further steps, and at the same task once completed.
\<close>

theorem callback_invoked_exactly_once_witness:
  "0 < length (threads (run [Submit ''abc'' Returns, Wait 0] (new_DataProcessor Map.empty)))
   \<and> \<not> terminated (run [Submit ''abc'' Returns, Wait 0] (new_DataProcessor Map.empty))
   \<and> received (threads (run [Work 0 openssl_sha256, Work 0 openssl_no_memory, Wait 7,
                                Work 0 openssl_no_memory]
        (run [Submit ''abc'' Returns, Wait 0] (new_DataProcessor Map.empty))) ! 0)
      = [''ba7816bf8f01cfea414140de5dae2223b00361a396177a9cb410ff61f20015ad'']
   \<and> phase (threads (run [Submit ''abc'' Returns, Work 0 openssl_sha256, Work 0 openssl_sha256]
        (new_DataProcessor Map.empty)) ! 0) = Completed
   \<and> length (received (threads (run [Submit ''abc'' Returns, Work 0 openssl_sha256, Work 0 openssl_sha256]
        (new_DataProcessor Map.empty)) ! 0)) = 1
   \<and> ''ba7816bf8f01cfea414140de5dae2223b00361a396177a9cb410ff61f20015ad''
        \<in> set (received (threads (run [Submit ''abc'' Returns, Work 0 openssl_sha256, Work 0 openssl_sha256]
             (new_DataProcessor Map.empty)) ! 0))"
proof -
  let ?s = "run [Submit ''abc'' Returns, Wait 0] (new_DataProcessor Map.empty)"
  let ?c = "run [Submit ''abc'' Returns, Work 0 openssl_sha256, Work 0 openssl_sha256]
              (new_DataProcessor Map.empty)"
  let ?h = "''ba7816bf8f01cfea414140de5dae2223b00361a396177a9cb410ff61f20015ad''"
  have len: "0 < length (threads ?s)" by (simp only: abc_submitted) simp
  have live: "\<not> terminated ?s" by (simp only: abc_submitted) simp
  have cb: "callback (threads ?s ! 0) \<noteq> Empty_function" by (simp only: abc_submitted) simp
  have ph: "phase (threads ?s ! 0) = Submitted" by (simp only: abc_submitted) simp
  have d: "data (threads ?s ! 0) = ''abc''" by (simp only: abc_submitted) simp
  have lg: "logger ?s \<noteq> None" by (simp only: abc_submitted) simp
  have g: "fst (generateHash openssl_sha256 (data (threads ?s ! 0)) ?s) = Some ?h"
    using generateHash_fst [OF lg, of openssl_sha256 "''abc''"] by (simp only: d hash_of_abc)
  from callback_invoked_exactly_once [OF refl len] live cb ph
  have "\<exists>r. fst (generateHash openssl_sha256 (data (threads ?s ! 0)) ?s) = Some r
      \<and> (\<forall>L2 bs. received (threads (run (Work 0 openssl_sha256 # Work 0 L2 # bs) ?s) ! 0) = [r])"
    by blast
  then have "\<forall>L2 bs. received (threads (run (Work 0 openssl_sha256 # Work 0 L2 # bs) ?s) ! 0) = [?h]"
    using g by auto
  then have first: "received (threads (run [Work 0 openssl_sha256, Work 0 openssl_no_memory, Wait 7,
        Work 0 openssl_no_memory] ?s) ! 0) = [?h]"
    by blast
  have len': "0 < length (threads ?c)" by (simp only: abc_worked) simp
  have ended: "phase (threads ?c ! 0) = Completed" by (simp only: abc_worked) simp
  have mem: "?h \<in> set (received (threads ?c ! 0))"
    by (simp only: abc_worked) (simp add: hash_of_abc)
  from callback_invoked_exactly_once [OF refl len'] ended
  have second: "length (received (threads ?c ! 0)) = 1" by blast
  show ?thesis using len live first ended second mem by blast
qed

text \<open>
  Against claim C3 as stated: two tasks are submitted and the thread of the second runs
  first. Its callback throws, nothing catches the exception, and the process is
  terminated. The first task's thread never runs, and its callback has been run zero
  times.
\<close>

theorem callback_not_invoked_after_termination:
  "terminated (run
      [Submit ''abc'' Returns, Submit ''abc'' Throws, Work 1 openssl_sha256, Work 1 openssl_sha256,
       Work 0 openssl_sha256, Work 0 openssl_sha256]
      (new_DataProcessor Map.empty))
   \<and> phase (threads (run
      [Submit ''abc'' Returns, Submit ''abc'' Throws, Work 1 openssl_sha256, Work 1 openssl_sha256,
       Work 0 openssl_sha256, Work 0 openssl_sha256]
      (new_DataProcessor Map.empty)) ! 0) = Submitted
   \<and> received (threads (run
      [Submit ''abc'' Returns, Submit ''abc'' Throws, Work 1 openssl_sha256, Work 1 openssl_sha256,
       Work 0 openssl_sha256, Work 0 openssl_sha256]
      (new_DataProcessor Map.empty)) ! 0) = []"
  by (simp add: step_def new_DataProcessor_eq processDataAsync_def worker_def
      thread_hash_logger thread_callback_def)







text \<open>
  Claim C1, at an input where the code departs from it. A task is submitted, its thread
  computes the hash, and \<open>waitForCompletion\<close> returns: the thread still holds the
  result, its callback has not been run, and the process is alive. The wait has returned
  with a task submitted before it incomplete.
\<close>

theorem waitForCompletion_returns_before_completion:
  "(\<exists>r. fst (generateHash L d (new_DataProcessor fs)) = Some r
      \<and> phase (threads (run [Submit d Returns, Work 0 L, Wait late] (new_DataProcessor fs)) ! 0)
         = Running r)
   \<and> received (threads (run [Submit d Returns, Work 0 L, Wait late] (new_DataProcessor fs)) ! 0) = []
   \<and> \<not> terminated (run [Submit d Returns, Work 0 L, Wait late] (new_DataProcessor fs))"
  by (simp add: step_def new_DataProcessor_eq processDataAsync_def worker_def
      thread_hash_logger waitForCompletion_def generateHash_fst)

text \<open>
  Claim C2, at the code. \<open>waitForCompletion\<close> does the same to a state whatever
  threads it holds: it leaves them as they are and blocks the caller for the fixed 100
  milliseconds (and the scheduler's delay). No count of outstanding tasks takes part.
\<close>

theorem waitForCompletion_ignores_tasks:
  "waitForCompletion late (s\<lparr>threads := ts\<rparr>) = (waitForCompletion late s)\<lparr>threads := ts\<rparr>
   \<and> threads (waitForCompletion late s) = threads s
   \<and> blocked_ms (waitForCompletion late s) = blocked_ms s + 100 + late"
  by (simp add: waitForCompletion_def)

text \<open>
  Claim C5, at an input where the code departs from it. One task is submitted and
  \<open>waitForCompletion\<close> returns: the number of outstanding tasks is then 1, not 0.
\<close>

theorem outstanding_when_wait_returns:
  "outstanding (run [Submit d cb, Wait late] (new_DataProcessor fs)) = 1"
  by (simp add: step_def new_DataProcessor_eq processDataAsync_def waitForCompletion_def
      outstanding_def)

text \<open>
  Claim C6, at an input where the code departs from it. A new object has no outstanding
  task and has not blocked its caller; a \<open>waitForCompletion\<close> on it blocks the caller
  for at least 100 milliseconds.
\<close>

theorem waitForCompletion_delays_without_tasks:
  "outstanding (new_DataProcessor fs) = 0
   \<and> blocked_ms (new_DataProcessor fs) = 0
   \<and> blocked_ms (run [Wait late] (new_DataProcessor fs)) = 100 + late"
  by (simp add: step_def new_DataProcessor_eq waitForCompletion_def outstanding_def)

section \<open>The claims about generateHash\<close>

text \<open>
  Claim C8, as amended. On an object whose logger was created, \<open>generateHash\<close> returns
  for every input either the empty string, and then an OpenSSL call has failed, or, OpenSSL
  writing the SHA-256 digest when it succeeds, 64 characters out of \<open>0123456789abcdef\<close>
  that read back as the 32 bytes of the SHA-256 digest of the input. Two calls on the same
  input, in whatever states, return the same string when OpenSSL succeeds in both or fails
  in both.
\<close>

theorem generateHash_empty_or_sha256_hex:
  assumes "logger s \<noteq> None" and "logger s' \<noteq> None"
    and "digest_ok L d \<Longrightarrow> snd (EVP_DigestFinal_ex L d) = sha256 d"
    and "digest_ok L' d \<Longrightarrow> snd (EVP_DigestFinal_ex L' d) = sha256 d"
  shows "((fst (generateHash L d s) = Some '''' \<and> \<not> digest_ok L d)
        \<or> (digest_ok L d
           \<and> (\<exists>r. fst (generateHash L d s) = Some r \<and> length r = 64
                \<and> set r \<subseteq> set ''0123456789abcdef''
                \<and> decode_hex r = sha256 d \<and> length (sha256 d) = 32)))
       \<and> (digest_ok L' d = digest_ok L d \<longrightarrow>
            fst (generateHash L' d s') = fst (generateHash L d s))"
proof -
  have first: "(fst (generateHash L d s) = Some '''' \<and> \<not> digest_ok L d)
        \<or> (digest_ok L d
           \<and> (\<exists>r. fst (generateHash L d s) = Some r \<and> length r = 64
                \<and> set r \<subseteq> set ''0123456789abcdef''
                \<and> decode_hex r = sha256 d \<and> length (sha256 d) = 32))"
  proof (cases "digest_ok L d")
    case True
    then have r: "fst (generateHash L d s) = Some (hex_loop (sha256 d) [])"
      using assms(1,3) by (simp add: generateHash_fst hash_of_def)
    have "length (hex_loop (sha256 d) []) = 64"
      by (simp add: length_hex_loop length_sha256)
    moreover have "set (hex_loop (sha256 d) []) \<subseteq> set ''0123456789abcdef''"
      by (rule set_hex_loop)
    moreover have "decode_hex (hex_loop (sha256 d) []) = sha256 d"
      by (rule decode_hex_loop)
    ultimately show ?thesis using True r length_sha256 [of d] by blast
  next
    case False
    then show ?thesis using assms(1) by (simp add: generateHash_fst hash_of_def)
  qed
  have second: "fst (generateHash L' d s') = fst (generateHash L d s)"
    if "digest_ok L' d = digest_ok L d"
    using that assms by (cases "digest_ok L d") (simp_all add: generateHash_fst hash_of_def)
  show ?thesis using first second by blast
qed

text \<open>
  The theorem at the input \<open>abc\<close>, with a library that succeeds, on a new object and
  on the same object after a wait.
\<close>

theorem generateHash_empty_or_sha256_hex_witness:
  "logger (new_DataProcessor Map.empty) \<noteq> None
   \<and> logger (run [Wait 0] (new_DataProcessor Map.empty)) \<noteq> None
   \<and> digest_ok openssl_sha256 ''abc''
   \<and> snd (EVP_DigestFinal_ex openssl_sha256 ''abc'') = sha256 ''abc''
   \<and> fst (generateHash openssl_sha256 ''abc'' (new_DataProcessor Map.empty))
       = Some ''ba7816bf8f01cfea414140de5dae2223b00361a396177a9cb410ff61f20015ad''
   \<and> fst (generateHash openssl_sha256 ''abc'' (run [Wait 0] (new_DataProcessor Map.empty)))
       = Some ''ba7816bf8f01cfea414140de5dae2223b00361a396177a9cb410ff61f20015ad''"
proof -
  let ?s = "new_DataProcessor Map.empty"
  let ?s' = "run [Wait 0] (new_DataProcessor Map.empty)"
  have l: "logger ?s \<noteq> None" by (simp add: new_DataProcessor_eq)
  have l': "logger ?s' \<noteq> None"
    by (simp add: new_DataProcessor_eq step_def waitForCompletion_def)
  have ok: "digest_ok openssl_sha256 ''abc''" by (simp add: digest_ok_def openssl_sha256_def)
  have h: "snd (EVP_DigestFinal_ex openssl_sha256 ''abc'') = sha256 ''abc''"
    by (simp add: openssl_sha256_def)
  have g: "fst (generateHash openssl_sha256 ''abc'' ?s)
      = Some ''ba7816bf8f01cfea414140de5dae2223b00361a396177a9cb410ff61f20015ad''"
    using generateHash_fst [OF l, of openssl_sha256 "''abc''"] by (simp only: hash_of_abc)
  from generateHash_empty_or_sha256_hex [OF l l' h h]
  have "fst (generateHash openssl_sha256 ''abc'' ?s') = fst (generateHash openssl_sha256 ''abc'' ?s)"
    by blast
  then show ?thesis using l l' ok h g by simp
qed

text \<open>
  Against claim C8 as stated, at the input \<open>abc\<close>. A call during which OpenSSL cannot
  allocate a context returns the empty string and a call during which it succeeds returns
  the digest: the same input, two outputs. And on a second object of a process, whose
  logger was not created, the call returns nothing.
\<close>

theorem generateHash_same_input_other_output:
  "fst (generateHash openssl_no_memory ''abc'' (new_DataProcessor Map.empty)) = Some ''''
   \<and> fst (generateHash openssl_sha256 ''abc'' (new_DataProcessor Map.empty))
       = Some ''ba7816bf8f01cfea414140de5dae2223b00361a396177a9cb410ff61f20015ad''
   \<and> fst (generateHash openssl_sha256 ''abc'' (second_DataProcessor Map.empty)) = None"
  by (simp add: generateHash_fst generateHash_None new_DataProcessor_eq second_DataProcessor_eq
      hash_of_abc hash_of_no_memory)

section \<open>Properties of the error state and of the stub\<close>

text \<open>
  Claim C10. In every state \<open>hasErrors\<close> answers true exactly when \<open>getLastError\<close>
  answers a non-empty string, neither of them changes the state, and after
  \<open>clearErrors\<close> the first answers false and the second the empty string.
\<close>

theorem error_queries_agree:
  "fst (hasErrors s) = (fst (getLastError s) \<noteq> '''')
   \<and> snd (hasErrors s) = s \<and> snd (getLastError s) = s
   \<and> fst (hasErrors (clearErrors s)) = False
   \<and> fst (getLastError (clearErrors s)) = ''''"
  by (simp add: hasErrors_def getLastError_def clearErrors_def)

text \<open>
  Claim C9. \<open>decompressFile\<close> answers true for every pair of paths and leaves the state,
  the files on disk among it, as it was, whether or not the input path names a file.
\<close>

theorem decompressFile_is_stub:
  "fst (decompressFile inputPath outputPath s) = True
   \<and> snd (decompressFile inputPath outputPath s) = s
   \<and> files (snd (decompressFile inputPath outputPath s)) = files s"
  by (simp add: decompressFile_def)

end
